theory Spec2Isabelle
  imports Main "HOL-Library.Sublist"
begin

section \<open>The Go standard library functions used by ecdict.go\<close>

text \<open>
  Go strings are byte sequences; a \<^typ>\<open>string\<close> is the list of the bytes
  (UTF-8 for text). The functions of package \<open>strings\<close> that \<open>ecdict.go\<close>
  calls are modelled on bytes, following the library's documented behaviour.
\<close>

subsection \<open>strings.TrimSpace\<close>

text \<open>
  \<open>strings.TrimSpace\<close> removes leading and trailing white space as defined
  by Unicode (\<open>unicode.IsSpace\<close>): the code points U+0009..U+000D, U+0020,
  U+0085, U+00A0, U+1680, U+2000..U+200A, U+2028, U+2029, U+202F, U+205F
  and U+3000. \<open>spaceRunes\<close> lists their UTF-8 encodings. A rune is decoded
  as white space exactly when the bytes at that end of the string are one
  of these encodings; any other byte sequence (also an invalid one, which
  decodes to U+FFFD) stops the trimming.
\<close>

definition spaceRunes :: "string list" where
  "spaceRunes =
    [[CHR 0x09], [CHR 0x0A], [CHR 0x0B], [CHR 0x0C], [CHR 0x0D], [CHR 0x20],
     [CHR 0xC2, CHR 0x85], [CHR 0xC2, CHR 0xA0],
     [CHR 0xE1, CHR 0x9A, CHR 0x80],
     [CHR 0xE2, CHR 0x80, CHR 0x80], [CHR 0xE2, CHR 0x80, CHR 0x81],
     [CHR 0xE2, CHR 0x80, CHR 0x82], [CHR 0xE2, CHR 0x80, CHR 0x83],
     [CHR 0xE2, CHR 0x80, CHR 0x84], [CHR 0xE2, CHR 0x80, CHR 0x85],
     [CHR 0xE2, CHR 0x80, CHR 0x86], [CHR 0xE2, CHR 0x80, CHR 0x87],
     [CHR 0xE2, CHR 0x80, CHR 0x88], [CHR 0xE2, CHR 0x80, CHR 0x89],
     [CHR 0xE2, CHR 0x80, CHR 0x8A],
     [CHR 0xE2, CHR 0x80, CHR 0xA8], [CHR 0xE2, CHR 0x80, CHR 0xA9],
     [CHR 0xE2, CHR 0x80, CHR 0xAF],
     [CHR 0xE2, CHR 0x81, CHR 0x9F],
     [CHR 0xE3, CHR 0x80, CHR 0x80]]"

text \<open>The encoding of a white-space rune that the string starts (ends) with, if any.\<close>

definition leadingSpace :: "string \<Rightarrow> string option" where
  "leadingSpace s = find (\<lambda>q. prefix q s) spaceRunes"

definition trailingSpace :: "string \<Rightarrow> string option" where
  "trailingSpace s = find (\<lambda>q. suffix q s) spaceRunes"

function TrimLeft :: "string \<Rightarrow> string" where
  "TrimLeft s =
     (case leadingSpace s of
        None \<Rightarrow> s
      | Some q \<Rightarrow> TrimLeft (drop (length q) s))"
  by pat_completeness auto
termination
proof (relation "measure length")
  fix s q
  assume "leadingSpace s = Some q"
  then have "q \<in> set spaceRunes" and "prefix q s"
    by (auto simp: leadingSpace_def find_Some_iff)
  then have "q \<noteq> []" and "length q \<le> length s"
    by (auto simp: spaceRunes_def prefix_length_le)
  then show "(drop (length q) s, s) \<in> measure length"
    by (cases q) auto
qed simp

function TrimRight :: "string \<Rightarrow> string" where
  "TrimRight s =
     (case trailingSpace s of
        None \<Rightarrow> s
      | Some q \<Rightarrow> TrimRight (take (length s - length q) s))"
  by pat_completeness auto
termination
proof (relation "measure length")
  fix s q
  assume "trailingSpace s = Some q"
  then have "q \<in> set spaceRunes" and "suffix q s"
    by (auto simp: trailingSpace_def find_Some_iff)
  then have "q \<noteq> []" and "length q \<le> length s"
    by (auto simp: spaceRunes_def suffix_length_le)
  then show "(take (length s - length q) s, s) \<in> measure length"
    by (cases q) auto
qed simp

definition TrimSpace :: "string \<Rightarrow> string" where
  "TrimSpace s = TrimRight (TrimLeft s)"

subsection \<open>strings.HasPrefix, strings.Split, strings.ReplaceAll\<close>

definition HasPrefix :: "string \<Rightarrow> string \<Rightarrow> bool" where
  "HasPrefix s pre = prefix pre s"

text \<open>
  \<open>strings.Split s sep\<close> for a non-empty separator: the string is cut at the
  leftmost occurrence of \<open>sep\<close>, and the search goes on after it; the result
  has one more element than there are (non-overlapping) occurrences. The
  program passes the literal separators \<open>" -> "\<close>, \<open>"/"\<close> and \<open>","\<close> only, so
  the empty separator (which Go splits at every UTF-8 sequence) is left
  out of the model.
\<close>

fun Split :: "string \<Rightarrow> string \<Rightarrow> string list" where
  "Split [] (x # xs) = [[]]"
| "Split (c # cs) (x # xs) =
     (if prefix (x # xs) (c # cs)
      then [] # Split (drop (length xs) cs) (x # xs)
      else (case Split cs (x # xs) of
              [] \<Rightarrow> [[c]]
            | p # ps \<Rightarrow> (c # p) # ps))"

text \<open>
  \<open>strings.ReplaceAll s old new\<close> for a non-empty \<open>old\<close>: every
  non-overlapping occurrence of \<open>old\<close>, found from the left, is replaced by
  \<open>new\<close>. The program passes one literal \<open>old\<close> only.
\<close>

fun ReplaceAll :: "string \<Rightarrow> string \<Rightarrow> string \<Rightarrow> string" where
  "ReplaceAll [] (x # xs) new = []"
| "ReplaceAll (c # cs) (x # xs) new =
     (if prefix (x # xs) (c # cs)
      then new @ ReplaceAll (drop (length xs) cs) (x # xs) new
      else c # ReplaceAll cs (x # xs) new)"

subsection \<open>strings.ToLower\<close>

text \<open>
  \<open>strings.ToLower\<close> has two paths. A string of ASCII bytes only is
  lowered byte by byte (\<open>A\<close>..\<open>Z\<close> become \<open>a\<close>..\<open>z\<close>). Any other string goes
  through \<open>strings.Map(unicode.ToLower, s)\<close>, which depends on the Unicode
  case tables of the Go distribution; that path is the parameter
  \<open>mapLower\<close>.
\<close>

definition isASCII :: "string \<Rightarrow> bool" where
  "isASCII s = list_all (\<lambda>c. of_char c < (128::nat)) s"

definition asciiLower :: "char \<Rightarrow> char" where
  "asciiLower c =
     (if (65::nat) \<le> of_char c \<and> of_char c \<le> (90::nat)
      then char_of (of_char c + (32::nat)) else c)"

definition ToLower :: "(string \<Rightarrow> string) \<Rightarrow> string \<Rightarrow> string" where
  "ToLower mapLower s = (if isASCII s then map asciiLower s else mapLower s)"

section \<open>The program\<close>

subsection \<open>Data\<close>

record DictItem =
  Word :: string
  Phonetic :: string
  Definition :: string
  Translation :: string
  Pos :: string
  Collins :: string
  Oxford :: string
  Tag :: string
  Bnc :: string
  Frq :: string
  Exchange :: string
  Detail :: string
  Audio :: string

text \<open>
  \<open>log.Fatal\<close> prints the error and ends the process: a function that
  reaches it returns \<open>Inl Fatal\<close>, and so does every caller.
\<close>

datatype fatal = Fatal

text \<open>
  The two embedded assets are not part of the sources, and neither are the
  readers of the standard library that tokenise them. The environment holds
  what the program gets from them:
  \<^item> \<open>csvReads\<close>: the results of the successive calls \<open>r.Read()\<close> of the
    \<open>csv.Reader\<close> over \<open>ecdictCsv\<close>, up to \<open>io.EOF\<close> (the end of the list): a
    record, or an error other than \<open>io.EOF\<close>. (A reader with the default
    settings also reports a row whose number of fields differs from the first
    row's as an error, \<open>csv.ErrFieldCount\<close>.)
  \<^item> \<open>scanLines\<close>: the values of \<open>scanner.Text()\<close> for the successive
    successful calls \<open>scanner.Scan()\<close> of the \<open>bufio.Scanner\<close> over
    \<open>lemmaEnTxt\<close>;
  \<^item> \<open>unicodeLower\<close>: the non-ASCII path of \<open>strings.ToLower\<close>.
\<close>

datatype read_result = Record "string list" | ReadError

record env =
  csvReads :: "read_result list"
  scanLines :: "string list"
  unicodeLower :: "string \<Rightarrow> string"

text \<open>
  \<open>parseDict\<close> creates its reader with \<open>csv.NewReader\<close> and changes no
  setting, so \<open>FieldsPerRecord\<close> is 0: \<open>Read\<close> takes the number of fields of
  the first record as the number that every later record must have, and
  returns \<open>csv.ErrFieldCount\<close> with a record of another length.
  \<open>csvReader rows\<close> is the sequence of read results for a source whose rows
  tokenise to the field lists \<open>rows\<close>.
\<close>

fun readRows :: "nat \<Rightarrow> string list list \<Rightarrow> read_result list" where
  "readRows n [] = []"
| "readRows n (row # rows) =
     (if length row = n then Record row else ReadError) # readRows n rows"

definition csvReader :: "string list list \<Rightarrow> read_result list" where
  "csvReader rows =
     (case rows of
        [] \<Rightarrow> []
      | first # rest \<Rightarrow> Record first # readRows (length first) rest)"

text \<open>
  The state: the two package-level maps, and the heap cells of the
  \<open>DictItem\<close> values whose address has been returned (a pointer is the index
  of its cell). A Go map of struct values stores copies, so the maps hold
  values, not pointers.
\<close>

record state =
  dictMapSingleton :: "string \<rightharpoonup> DictItem"
  lemmaMapSingleton :: "string \<rightharpoonup> string"
  heap :: "DictItem list"

definition initial :: state where
  "initial = \<lparr>dictMapSingleton = Map.empty, lemmaMapSingleton = Map.empty, heap = []\<rparr>"

subsection \<open>removeBr and parseDict\<close>

definition removeBr :: "string \<Rightarrow> string" where
  "removeBr w = ReplaceAll w [CHR 0x5C, CHR ''n''] [CHR 0x0A]"

fun parseDict_loop ::
  "(string \<Rightarrow> string) \<Rightarrow> (string \<rightharpoonup> DictItem) \<Rightarrow> read_result list
     \<Rightarrow> fatal + (string \<rightharpoonup> DictItem)" where
  "parseDict_loop lower dictMap [] = Inr dictMap"
| "parseDict_loop lower dictMap (ReadError # rest) = Inl Fatal"
| "parseDict_loop lower dictMap (Record record # rest) =
     (if 13 \<noteq> length record then parseDict_loop lower dictMap rest
      else
        let word = TrimSpace (record ! 0) in
        if word = [] then parseDict_loop lower dictMap rest
        else
          let dictItem =
            \<lparr>Word = word,
             Phonetic = record ! 1,
             Definition = removeBr (record ! 2),
             Translation = removeBr (record ! 3),
             Pos = record ! 4,
             Collins = record ! 5,
             Oxford = record ! 6,
             Tag = record ! 7,
             Bnc = record ! 8,
             Frq = record ! 9,
             Exchange = record ! 10,
             Detail = record ! 11,
             Audio = record ! 12\<rparr> in
          if Word dictItem = ''word'' \<and> Phonetic dictItem = ''phonetic''
          then parseDict_loop lower dictMap rest
          else parseDict_loop lower
                 (dictMap(word \<mapsto> dictItem, ToLower lower word \<mapsto> dictItem)) rest)"

definition parseDict :: "env \<Rightarrow> fatal + (string \<rightharpoonup> DictItem)" where
  "parseDict e = parseDict_loop (unicodeLower e) Map.empty (csvReads e)"

subsection \<open>parseLemma\<close>

text \<open>The inner loop, over the parts of the right-hand side of a rule.\<close>

fun addLemmas ::
  "(string \<rightharpoonup> string) \<Rightarrow> string \<Rightarrow> string list \<Rightarrow> (string \<rightharpoonup> string)" where
  "addLemmas lemmaMap originalWord [] = lemmaMap"
| "addLemmas lemmaMap originalWord (part # rest) =
     (let lemma = TrimSpace part in
      if lemma = [] then addLemmas lemmaMap originalWord rest
      else addLemmas (lemmaMap(lemma \<mapsto> originalWord)) originalWord rest)"

fun parseLemma_loop :: "(string \<rightharpoonup> string) \<Rightarrow> string list \<Rightarrow> (string \<rightharpoonup> string)" where
  "parseLemma_loop lemmaMap [] = lemmaMap"
| "parseLemma_loop lemmaMap (scanned # rest) =
     (let line = TrimSpace scanned in
      if HasPrefix line '';'' then parseLemma_loop lemmaMap rest
      else
        let parts = Split line '' -> '' in
        if length parts \<noteq> 2 then parseLemma_loop lemmaMap rest
        else
          let rParts = Split (parts ! 0) ''/'';
              lParts = Split (parts ! 1) '','';
              originalWord = (if length rParts > 0 then TrimSpace (rParts ! 0) else [])
          in
          if originalWord = [] then parseLemma_loop lemmaMap rest
          else parseLemma_loop (addLemmas lemmaMap originalWord lParts) rest)"

definition parseLemma :: "env \<Rightarrow> (string \<rightharpoonup> string)" where
  "parseLemma e = parseLemma_loop Map.empty (scanLines e)"

subsection \<open>loadDict, init and LookUp\<close>

definition loadDict :: "env \<Rightarrow> state \<Rightarrow> fatal + state" where
  "loadDict e s =
     (case (if dictMapSingleton s = Map.empty
            then (case parseDict e of
                    Inl f \<Rightarrow> Inl f
                  | Inr d \<Rightarrow> Inr (s\<lparr>dictMapSingleton := d\<rparr>))
            else Inr s) of
        Inl f \<Rightarrow> Inl f
      | Inr s1 \<Rightarrow>
          Inr (if lemmaMapSingleton s1 = Map.empty
               then s1\<lparr>lemmaMapSingleton := parseLemma e\<rparr>
               else s1))"

definition init :: "env \<Rightarrow> fatal + state" where
  "init e = loadDict e initial"

text \<open>
  \<open>LookUp\<close> copies the map's value into the local variable \<open>dictItem\<close> and
  returns the address of that variable: a fresh heap cell holding the copy.
\<close>

definition LookUp :: "env \<Rightarrow> string \<Rightarrow> state \<Rightarrow> fatal + (nat option \<times> state)" where
  "LookUp e word s =
     (case loadDict e s of
        Inl f \<Rightarrow> Inl f
      | Inr s1 \<Rightarrow>
          let word = TrimSpace word;
              baseWord = (case lemmaMapSingleton s1 word of
                            Some b \<Rightarrow> b
                          | None \<Rightarrow> word)
          in
          (case dictMapSingleton s1 baseWord of
             None \<Rightarrow> Inr (None, s1)
           | Some dictItem \<Rightarrow>
               Inr (Some (length (heap s1)), s1\<lparr>heap := heap s1 @ [dictItem]\<rparr>)))"

subsection \<open>What the callers do\<close>

text \<open>A caller writes through a pointer that \<open>LookUp\<close> returned: \<open>*p = v\<close>.\<close>

definition store :: "nat \<Rightarrow> DictItem \<Rightarrow> state \<Rightarrow> state" where
  "store p v s = s\<lparr>heap := (heap s)[p := v]\<rparr>"

text \<open>
  A caller reads through the pointer that \<open>LookUp\<close> returned; \<open>nil\<close>, and a
  process that has ended, give no entry.
\<close>

fun pointee :: "fatal + (nat option \<times> state) \<Rightarrow> DictItem option" where
  "pointee (Inr (Some p, s)) = (if p < length (heap s) then Some (heap s ! p) else None)"
| "pointee (Inr (None, s)) = None"
| "pointee (Inl f) = None"

text \<open>\<open>loadDict\<close> invoked \<open>n\<close> times in a row.\<close>

fun loadDict_times :: "env \<Rightarrow> nat \<Rightarrow> state \<Rightarrow> fatal + state" where
  "loadDict_times e 0 s = Inr s"
| "loadDict_times e (Suc n) s =
     (case loadDict e s of
        Inl f \<Rightarrow> Inl f
      | Inr s1 \<Rightarrow> loadDict_times e n s1)"

text \<open>
  The states of a running process: the package initialiser \<open>init\<close> has run,
  and since then \<open>LookUp\<close> has been called and returned pointers have been
  written through, in any order.
\<close>

inductive reachable :: "env \<Rightarrow> state \<Rightarrow> bool" for e :: env where
  reach_init: "init e = Inr s \<Longrightarrow> reachable e s"
| reach_LookUp: "reachable e s \<Longrightarrow> LookUp e w s = Inr (r, s') \<Longrightarrow> reachable e s'"
| reach_store: "reachable e s \<Longrightarrow> p < length (heap s) \<Longrightarrow> reachable e (store p v s)"

section \<open>The specification's notions\<close>

text \<open>
  The definitions of this section follow the words of the specification;
  the theorems below compare them with the program.
\<close>

subsection \<open>Dictionary records\<close>

text \<open>The word of a row: its first field, trimmed.\<close>

definition wordOf :: "string list \<Rightarrow> string" where
  "wordOf r = TrimSpace (r ! 0)"

text \<open>
  The records that the loop of \<open>parseDict\<close> accepts, by its three tests:
  exactly 13 fields, a non-empty word, and not the header. The program
  compares \<open>dictItem.Word\<close>, the trimmed first field, with \<open>word\<close>, so a
  first field \<open>word\<close> with white space around it is taken for the header
  too.
\<close>

definition validRecord :: "string list \<Rightarrow> bool" where
  "validRecord r \<longleftrightarrow>
     length r = 13 \<and> wordOf r \<noteq> [] \<and> \<not> (wordOf r = ''word'' \<and> r ! 1 = ''phonetic'')"

text \<open>
  The entry of a row: the trimmed word, the definition and the translation
  with their escaped newlines decoded, every other field as it is in the row.
\<close>

definition entryOf :: "string list \<Rightarrow> DictItem" where
  "entryOf r =
     \<lparr>Word = wordOf r, Phonetic = r ! 1,
      Definition = removeBr (r ! 2), Translation = removeBr (r ! 3),
      Pos = r ! 4, Collins = r ! 5, Oxford = r ! 6, Tag = r ! 7, Bnc = r ! 8,
      Frq = r ! 9, Exchange = r ! 10, Detail = r ! 11, Audio = r ! 12\<rparr>"

text \<open>Insert the entry under both its exact word and its lowercase word.\<close>

definition insertEntry ::
  "(string \<Rightarrow> string) \<Rightarrow> (string \<rightharpoonup> DictItem) \<Rightarrow> string list
     \<Rightarrow> (string \<rightharpoonup> DictItem)" where
  "insertEntry lower m r =
     m(wordOf r \<mapsto> entryOf r, ToLower lower (wordOf r) \<mapsto> entryOf r)"

definition dictOfRecords ::
  "(string \<Rightarrow> string) \<Rightarrow> string list list \<Rightarrow> (string \<rightharpoonup> DictItem)" where
  "dictOfRecords lower rs = foldl (insertEntry lower) Map.empty rs"

text \<open>A record writes the key \<open>k\<close>: it is valid, and \<open>k\<close> is its word or its lowercase word.\<close>

definition writesKey :: "(string \<Rightarrow> string) \<Rightarrow> string \<Rightarrow> string list \<Rightarrow> bool" where
  "writesKey lower k r \<longleftrightarrow>
     validRecord r \<and> (wordOf r = k \<or> ToLower lower (wordOf r) = k)"

subsection \<open>Lemma rules\<close>

text \<open>
  The mappings that one line of the lemma file contributes, in the order
  of its right-hand side: none for a comment, for a line that does not split
  into exactly two parts on \<open>" -> "\<close>, or for an empty canonical word.
\<close>

definition lemmaRules :: "string \<Rightarrow> (string \<times> string) list" where
  "lemmaRules scanned =
     (let line = TrimSpace scanned in
      if HasPrefix line '';'' then []
      else
        (case Split line '' -> '' of
           [left, right] \<Rightarrow>
             (let canonical = TrimSpace (hd (Split left ''/'')) in
              if canonical = [] then []
              else map (\<lambda>k. (k, canonical))
                     (filter (\<lambda>k. k \<noteq> []) (map TrimSpace (Split right '',''))))
         | _ \<Rightarrow> []))"

subsection \<open>Lookup\<close>

text \<open>
  The word that is looked up in the dictionary: the trimmed word, or what
  the lemma map gives for the trimmed word when it is one of its keys.
\<close>

definition baseWordOf :: "(string \<rightharpoonup> string) \<Rightarrow> string \<Rightarrow> string" where
  "baseWordOf lemmaToBase w =
     (let t = TrimSpace w in
      if t \<in> dom lemmaToBase then the (lemmaToBase t) else t)"

subsection \<open>Example assets\<close>

definition ex_header :: "string list" where
  "ex_header =
     [''word'', ''phonetic'', ''definition'', ''translation'', ''pos'', ''collins'',
      ''oxford'', ''tag'', ''bnc'', ''frq'', ''exchange'', ''detail'', ''audio'']"

definition ex_run :: "string list" where
  "ex_run =
     [''run'', ''rVn'', ''go'' @ [CHR 0x5C, CHR ''n''] @ ''fast'', ''pao'', ''v'', ''3'',
      ''1'', ''zk'', ''100'', ''90'', ''d:ran'', ''{}'', []]"

definition ex_blank :: "string list" where
  "ex_blank =
     ['' '', ''x'', ''x'', ''x'', ''x'', ''x'', ''x'', ''x'', ''x'', ''x'', ''x'', ''x'', ''x'']"

definition ex_Ran :: "string list" where
  "ex_Ran =
     ['' Ran '', ''rAn'', ''a name'', ''lan'', ''n'', ''0'', ''0'', [], [], [], [],
      ''{}'', []]"

definition ex_env :: env where
  "ex_env =
     \<lparr>csvReads = [Record ex_header, Record ex_run, Record ex_blank, Record ex_Ran],
      scanLines = [''; rules'', ''run/12 -> runs, ran'', ''no arrow''],
      unicodeLower = (\<lambda>s. s)\<rparr>"

definition ex_state :: state where
  "ex_state =
     \<lparr>dictMapSingleton =
        [''run'' \<mapsto> entryOf ex_run, ''Ran'' \<mapsto> entryOf ex_Ran, ''ran'' \<mapsto> entryOf ex_Ran],
      lemmaMapSingleton = [''runs'' \<mapsto> ''run'', ''ran'' \<mapsto> ''run''],
      heap = []\<rparr>"

text \<open>A source with a row of two fields between two rows of 13 fields.\<close>

definition ex_short :: "string list" where
  "ex_short = [''bad'', ''row'']"

definition ex_short_env :: env where
  "ex_short_env =
     \<lparr>csvReads = csvReader [ex_run, ex_short, ex_Ran],
      scanLines = [''run/12 -> runs, ran''],
      unicodeLower = (\<lambda>s. s)\<rparr>"

text \<open>Two rows whose words differ in case only, the lowercase one first.\<close>

definition ex_cat :: "string list" where
  "ex_cat =
     [''cat'', ''kat'', ''an animal'', ''mao'', ''n'', ''0'', ''0'', [], [], [], [],
      ''{}'', []]"

definition ex_Cat :: "string list" where
  "ex_Cat =
     [''Cat'', ''KAT'', ''a name'', ''ming'', ''n'', ''0'', ''0'', [], [], [], [],
      ''{}'', []]"

definition ex_cat_env :: env where
  "ex_cat_env =
     \<lparr>csvReads = [Record ex_cat, Record ex_Cat], scanLines = [],
      unicodeLower = (\<lambda>s. s)\<rparr>"

section \<open>Lemmas\<close>

subsection \<open>Library functions\<close>

lemma Split_not_Nil: "Split s (x # xs) \<noteq> []"
  by (induction s "x # xs" rule: Split.induct) (auto split: list.splits)

lemma removeBr_Nil: "removeBr [] = []"
  by (simp add: removeBr_def)

lemma removeBr_Cons:
  "removeBr (c # cs) =
     (if c = CHR 0x5C \<and> (\<exists>ds. cs = CHR ''n'' # ds)
      then CHR 0x0A # removeBr (tl cs) else c # removeBr cs)"
  by (cases cs) (auto simp: removeBr_def)

lemma removeBr_append_escape:
  "removeBr (a @ [CHR 0x5C, CHR ''n''] @ b) = removeBr a @ [CHR 0x0A] @ removeBr b"
proof (induction a rule: induct_list012)
  case 1
  show ?case by (simp add: removeBr_Cons removeBr_Nil)
next
  case (2 x)
  show ?case by (simp add: removeBr_Cons removeBr_Nil)
next
  case (3 x y zs)
  then show ?case by (simp add: removeBr_Cons)
qed

lemma removeBr_no_escape:
  "\<not> sublist [CHR 0x5C, CHR ''n''] s \<Longrightarrow> removeBr s = s"
proof (induction s)
  case Nil
  show ?case by (simp add: removeBr_Nil)
next
  case (Cons c cs)
  from Cons.prems have "\<not> sublist [CHR 0x5C, CHR ''n''] cs"
    by (auto simp: sublist_Cons_right)
  moreover from Cons.prems have "\<not> (c = CHR 0x5C \<and> (\<exists>ds. cs = CHR ''n'' # ds))"
    by (auto simp: sublist_Cons_right)
  ultimately show ?case using Cons.IH by (simp add: removeBr_Cons)
qed

lemma removeBr_escape_free: "\<not> sublist [CHR 0x5C, CHR ''n''] (removeBr s)"
proof (induction s rule: induct_list012)
  case 1
  show ?case by (simp add: removeBr_Nil)
next
  case (2 x)
  show ?case by (simp add: removeBr_Cons removeBr_Nil sublist_Cons_right)
next
  case (3 x y zs)
  then show ?case
    by (cases zs) (auto simp: removeBr_Cons removeBr_Nil sublist_Cons_right)
qed

lemma asciiLower_idem: "asciiLower (asciiLower c) = asciiLower c"
proof -
  let ?n = "of_char c :: nat"
  show ?thesis
  proof (cases "65 \<le> ?n \<and> ?n \<le> 90")
    case True
    then have low: "asciiLower c = char_of (?n + 32)"
      by (simp add: asciiLower_def)
    from True have "of_char (char_of (?n + 32) :: char) = ?n + 32"
      by simp
    with True have "\<not> ((65::nat) \<le> of_char (char_of (?n + 32) :: char) \<and>
        of_char (char_of (?n + 32) :: char) \<le> (90::nat))"
      by simp
    then have "asciiLower (char_of (?n + 32)) = char_of (?n + 32)"
      unfolding asciiLower_def by (rule if_not_P)
    with low show ?thesis by simp
  next
    case False
    then have "asciiLower c = c"
      unfolding asciiLower_def by (rule if_not_P)
    then show ?thesis by simp
  qed
qed

lemma of_char_asciiLower:
  "of_char (asciiLower c) =
     (if (65::nat) \<le> of_char c \<and> of_char c \<le> (90::nat) then of_char c + 32
      else (of_char c :: nat))"
  by (simp add: asciiLower_def)

lemma isASCII_map_asciiLower: "isASCII s \<Longrightarrow> isASCII (map asciiLower s)"
  by (induction s) (auto simp: isASCII_def of_char_asciiLower)

lemma ToLower_ascii_idem:
  "isASCII s \<Longrightarrow> ToLower mapLower (ToLower mapLower s) = ToLower mapLower s"
  by (simp add: ToLower_def isASCII_map_asciiLower asciiLower_idem)

subsection \<open>parseDict\<close>

lemma parseDict_loop_Record:
  "parseDict_loop lower m (Record r # rest) =
     parseDict_loop lower (if validRecord r then insertEntry lower m r else m) rest"
  by (simp add: validRecord_def insertEntry_def entryOf_def wordOf_def Let_def)

lemma parseDict_loop_records:
  "parseDict_loop lower m (map Record recs) =
     Inr (foldl (insertEntry lower) m (filter validRecord recs))"
  by (induction recs arbitrary: m)
    (simp_all add: parseDict_loop_Record del: parseDict_loop.simps(3))

lemma parseDict_loop_fatal:
  "parseDict_loop lower m rs = Inl Fatal \<longleftrightarrow> ReadError \<in> set rs"
proof (induction rs arbitrary: m)
  case Nil
  show ?case by simp
next
  case (Cons x rs)
  show ?case
  proof (cases x)
    case (Record r)
    then show ?thesis
      using Cons.IH by (simp add: parseDict_loop_Record del: parseDict_loop.simps(3))
  next
    case ReadError
    then show ?thesis by simp
  qed
qed

lemma no_ReadError_records: "ReadError \<notin> set rs \<Longrightarrow> \<exists>recs. rs = map Record recs"
proof (induction rs)
  case Nil
  show ?case by simp
next
  case (Cons x rs)
  then obtain recs where recs: "rs = map Record recs" by auto
  from Cons.prems obtain r where "x = Record r" by (cases x) auto
  with recs have "x # rs = map Record (r # recs)" by simp
  then show ?case by (rule exI)
qed

lemma parseDict_Inr_records:
  assumes "parseDict e = Inr m"
  shows "\<exists>recs. csvReads e = map Record recs \<and>
           m = dictOfRecords (unicodeLower e) (filter validRecord recs)"
proof -
  from assms have "parseDict_loop (unicodeLower e) Map.empty (csvReads e) \<noteq> Inl Fatal"
    by (simp add: parseDict_def)
  then have "ReadError \<notin> set (csvReads e)"
    by (simp add: parseDict_loop_fatal)
  then obtain recs where recs: "csvReads e = map Record recs"
    using no_ReadError_records by blast
  with assms have "m = dictOfRecords (unicodeLower e) (filter validRecord recs)"
    by (simp add: parseDict_def parseDict_loop_records dictOfRecords_def)
  with recs show ?thesis by blast
qed

lemma dom_insertEntry:
  "dom (insertEntry lower m r) =
     insert (wordOf r) (insert (ToLower lower (wordOf r)) (dom m))"
  by (auto simp: insertEntry_def)

lemma dom_foldl_insertEntry:
  "dom (foldl (insertEntry lower) m rs) =
     dom m \<union> (\<Union>r\<in>set rs. {wordOf r, ToLower lower (wordOf r)})"
  by (induction rs arbitrary: m) (auto simp: dom_insertEntry)

lemma foldl_insertEntry_untouched:
  "\<forall>r\<in>set rs. wordOf r \<noteq> k \<and> ToLower lower (wordOf r) \<noteq> k \<Longrightarrow>
     foldl (insertEntry lower) m rs k = m k"
  by (induction rs arbitrary: m) (auto simp: insertEntry_def)

lemma foldl_insertEntry_last:
  assumes "wordOf r = k \<or> ToLower lower (wordOf r) = k"
    and "\<forall>r'\<in>set bs. wordOf r' \<noteq> k \<and> ToLower lower (wordOf r') \<noteq> k"
  shows "foldl (insertEntry lower) m (as @ r # bs) k = Some (entryOf r)"
proof -
  have "foldl (insertEntry lower) m (as @ r # bs) k =
        insertEntry lower (foldl (insertEntry lower) m as) r k"
    using assms(2) by (simp add: foldl_insertEntry_untouched)
  also have "\<dots> = Some (entryOf r)"
    using assms(1) by (auto simp: insertEntry_def)
  finally show ?thesis .
qed

lemma foldl_insertEntry_value:
  "foldl (insertEntry lower) m rs k = Some d \<Longrightarrow>
     m k = Some d \<or>
     (\<exists>r\<in>set rs. d = entryOf r \<and> (wordOf r = k \<or> ToLower lower (wordOf r) = k))"
proof (induction rs arbitrary: m)
  case Nil
  then show ?case by simp
next
  case (Cons r rs)
  from Cons.IH[of "insertEntry lower m r"] Cons.prems
  show ?case by (auto simp: insertEntry_def split: if_splits)
qed

subsection \<open>parseLemma\<close>

lemma upd_map_add: "m(k \<mapsto> w) ++ n = m ++ ([k \<mapsto> w] ++ n)"
  by (rule ext) (simp add: map_add_def split: option.splits)

lemma addLemmas_map_of:
  "addLemmas m w parts =
     m ++ map_of (rev (map (\<lambda>k. (k, w)) (filter (\<lambda>k. k \<noteq> []) (map TrimSpace parts))))"
proof (induction parts arbitrary: m)
  case Nil
  show ?case by simp
next
  case (Cons p parts)
  show ?case
  proof (cases "TrimSpace p = []")
    case True
    then show ?thesis by (simp add: Cons.IH)
  next
    case False
    then have "addLemmas m w (p # parts) =
        m(TrimSpace p \<mapsto> w) ++
          map_of (rev (map (\<lambda>k. (k, w)) (filter (\<lambda>k. k \<noteq> []) (map TrimSpace parts))))"
      by (simp add: Cons.IH fun_upd_def)
    also have "\<dots> = m ++ ([TrimSpace p \<mapsto> w] ++
          map_of (rev (map (\<lambda>k. (k, w)) (filter (\<lambda>k. k \<noteq> []) (map TrimSpace parts)))))"
      by (rule upd_map_add)
    finally show ?thesis
      using False by simp
  qed
qed

lemma length_2_iff: "length xs = 2 \<longleftrightarrow> (\<exists>a b. xs = [a, b])"
  by (cases xs; cases "tl xs"; cases "tl (tl xs)") auto

lemma parseLemma_loop_Cons:
  "parseLemma_loop m (scanned # rest) =
     parseLemma_loop (m ++ map_of (rev (lemmaRules scanned))) rest"
proof (cases "length (Split (TrimSpace scanned) '' -> '') = 2")
  case False
  then have "\<And>a b. Split (TrimSpace scanned) '' -> '' \<noteq> [a, b]" by auto
  then have "lemmaRules scanned = []"
    by (auto simp: lemmaRules_def Let_def split: list.splits)
  with False show ?thesis by (simp add: Let_def)
next
  case True
  then obtain l r where lr: "Split (TrimSpace scanned) '' -> '' = [l, r]"
    by (auto simp: length_2_iff)
  obtain f fs where f: "Split l ''/'' = f # fs"
    using Split_not_Nil[of l "CHR ''/''" "[]"] by (cases "Split l ''/''") auto
  show ?thesis
    by (simp add: lr f lemmaRules_def Let_def addLemmas_map_of)
qed

lemma parseLemma_loop_map_of:
  "parseLemma_loop m scanned = m ++ map_of (rev (concat (map lemmaRules scanned)))"
proof (induction scanned arbitrary: m)
  case Nil
  show ?case by simp
next
  case (Cons l ls)
  show ?case
    by (simp add: parseLemma_loop_Cons Cons.IH del: parseLemma_loop.simps(2))
qed

lemma lemmaRules_nonempty: "(k, v) \<in> set (lemmaRules l) \<Longrightarrow> k \<noteq> [] \<and> v \<noteq> []"
  by (auto simp: lemmaRules_def Let_def split: if_splits list.splits)

subsection \<open>loadDict and LookUp\<close>

lemma loadDict_idem: "loadDict e s = Inr s1 \<Longrightarrow> loadDict e s1 = Inr s1"
  by (auto simp: loadDict_def split: sum.splits if_splits)

lemma loadDict_loaded:
  "dictMapSingleton s \<noteq> Map.empty \<Longrightarrow> lemmaMapSingleton s \<noteq> Map.empty
     \<Longrightarrow> loadDict e s = Inr s"
  by (simp add: loadDict_def)

lemma loadDict_heap:
  "loadDict e s = Inr s1 \<Longrightarrow> loadDict e (s\<lparr>heap := h\<rparr>) = Inr (s1\<lparr>heap := h\<rparr>)"
  by (auto simp: loadDict_def split: sum.splits if_splits)

lemma loadDict_times_Suc: "loadDict_times e (Suc n) s = loadDict e s"
proof (induction n arbitrary: s)
  case 0
  show ?case by (simp split: sum.splits)
next
  case (Suc n)
  show ?case
  proof (cases "loadDict e s")
    case (Inl f)
    then show ?thesis by simp
  next
    case (Inr s1)
    then have "loadDict e s1 = Inr s1" by (rule loadDict_idem)
    with Inr Suc.IH[of s1] show ?thesis by simp
  qed
qed

lemma LookUp_loaded:
  assumes "loadDict e s = Inr s"
  shows "LookUp e w s =
    (case dictMapSingleton s
            (case lemmaMapSingleton s (TrimSpace w) of
               Some b \<Rightarrow> b
             | None \<Rightarrow> TrimSpace w) of
       None \<Rightarrow> Inr (None, s)
     | Some d \<Rightarrow> Inr (Some (length (heap s)), s\<lparr>heap := heap s @ [d]\<rparr>))"
  using assms by (simp add: LookUp_def Let_def)

lemma reachable_loaded: "reachable e s \<Longrightarrow> loadDict e s = Inr s"
proof (induction rule: reachable.induct)
  case (reach_init s)
  then show ?case by (auto simp: init_def intro: loadDict_idem)
next
  case (reach_LookUp s w r s')
  from reach_LookUp.IH reach_LookUp.hyps(2)
  have "s' = s \<or> (\<exists>d. s' = s\<lparr>heap := heap s @ [d]\<rparr>)"
    by (auto simp: LookUp_loaded split: option.splits)
  then show ?case
    using loadDict_heap[OF reach_LookUp.IH] reach_LookUp.IH by auto
next
  case (reach_store s p v)
  then show ?case
    using loadDict_heap[OF reach_store.IH] by (simp add: store_def)
qed

lemma baseWordOf_case:
  "baseWordOf lm w = (case lm (TrimSpace w) of Some b \<Rightarrow> b | None \<Rightarrow> TrimSpace w)"
  by (auto simp: baseWordOf_def Let_def split: option.splits)

lemma pointee_LookUp:
  assumes "loadDict e s = Inr s"
  shows "pointee (LookUp e w s) = dictMapSingleton s (baseWordOf (lemmaMapSingleton s) w)"
  using assms by (simp add: LookUp_loaded baseWordOf_case split: option.splits)

subsection \<open>The example assets, evaluated\<close>

lemma ex_words:
  "wordOf ex_header = ''word''" "wordOf ex_run = ''run''" "wordOf ex_blank = []"
  "wordOf ex_Ran = ''Ran''" "wordOf ex_cat = ''cat''" "wordOf ex_Cat = ''Cat''"
  by code_simp+

lemma ex_lower:
  "ToLower (\<lambda>s. s) ''run'' = ''run''" "ToLower (\<lambda>s. s) ''Ran'' = ''ran''"
  "ToLower (\<lambda>s. s) ''cat'' = ''cat''" "ToLower (\<lambda>s. s) ''Cat'' = ''cat''"
  by code_simp+

lemma ex_valid:
  "\<not> validRecord ex_header" "validRecord ex_run" "\<not> validRecord ex_blank"
  "validRecord ex_Ran" "validRecord ex_cat" "validRecord ex_Cat"
  by code_simp+

lemma ex_rules:
  "lemmaRules ''; rules'' = []"
  "lemmaRules ''run/12 -> runs, ran'' = [(''runs'', ''run''), (''ran'', ''run'')]"
  "lemmaRules ''no arrow'' = []"
  by code_simp+

lemma ex_parseDict:
  "parseDict ex_env =
     Inr [''run'' \<mapsto> entryOf ex_run, ''Ran'' \<mapsto> entryOf ex_Ran, ''ran'' \<mapsto> entryOf ex_Ran]"
proof -
  have reads: "csvReads ex_env = map Record [ex_header, ex_run, ex_blank, ex_Ran]"
    and lower: "unicodeLower ex_env = (\<lambda>s. s)"
    by (simp_all add: ex_env_def)
  have "parseDict ex_env =
      Inr (foldl (insertEntry (\<lambda>s. s)) Map.empty
             (filter validRecord [ex_header, ex_run, ex_blank, ex_Ran]))"
    by (simp only: parseDict_def reads lower parseDict_loop_records)
  then show ?thesis
    by (simp add: ex_valid insertEntry_def ex_words ex_lower)
qed

lemma ex_parseLemma:
  "parseLemma ex_env = [''runs'' \<mapsto> ''run'', ''ran'' \<mapsto> ''run'']"
  by (simp add: parseLemma_def parseLemma_loop_map_of ex_env_def ex_rules)

lemma ex_init: "init ex_env = Inr ex_state"
  by (simp add: init_def loadDict_def initial_def ex_parseDict ex_parseLemma ex_state_def)

lemma ex_reachable: "reachable ex_env ex_state"
  by (rule reach_init) (rule ex_init)

lemma ex_trim:
  "TrimSpace ''  runs '' = ''runs''" "TrimSpace ''ran'' = ''ran''"
  "TrimSpace ''zebra'' = ''zebra''" "TrimSpace ''run'' = ''run''"
  by code_simp+

lemma ex_state_maps:
  "dictMapSingleton ex_state ''ran'' = Some (entryOf ex_Ran)"
  "dictMapSingleton ex_state ''run'' = Some (entryOf ex_run)"
  "dictMapSingleton ex_state ''zebra'' = None"
  "lemmaMapSingleton ex_state ''ran'' = Some ''run''"
  "lemmaMapSingleton ex_state ''runs'' = Some ''run''"
  "lemmaMapSingleton ex_state ''run'' = None"
  "lemmaMapSingleton ex_state ''zebra'' = None"
  "heap ex_state = []"
  by (simp_all add: ex_state_def)

lemma ex_entries_differ: "entryOf ex_run \<noteq> entryOf ex_Ran"
  by (simp add: entryOf_def ex_words)

lemma filter_not_writesKey:
  assumes "\<forall>r\<in>set rs. \<not> writesKey lower k r"
  shows "\<forall>r\<in>set (filter validRecord rs). wordOf r \<noteq> k \<and> ToLower lower (wordOf r) \<noteq> k"
  using assms by (auto simp: writesKey_def)

lemma ex_cat_parse:
  "parseDict ex_cat_env =
     Inr [''cat'' \<mapsto> entryOf ex_cat, ''Cat'' \<mapsto> entryOf ex_Cat, ''cat'' \<mapsto> entryOf ex_Cat]"
proof -
  have reads: "csvReads ex_cat_env = map Record [ex_cat, ex_Cat]"
    and lower: "unicodeLower ex_cat_env = (\<lambda>s. s)"
    by (simp_all add: ex_cat_env_def)
  have "parseDict ex_cat_env =
      Inr (foldl (insertEntry (\<lambda>s. s)) Map.empty (filter validRecord [ex_cat, ex_Cat]))"
    by (simp only: parseDict_def reads lower parseDict_loop_records)
  then show ?thesis
    by (simp add: ex_valid insertEntry_def ex_words ex_lower)
qed

lemma ex_cat_entries_differ: "entryOf ex_cat \<noteq> entryOf ex_Cat"
  by (simp add: entryOf_def ex_words)

lemma ex_removeBr:
  "removeBr (''go'' @ [CHR 0x5C, CHR ''n''] @ ''fast'') = ''go'' @ [CHR 0x0A] @ ''fast''"
  "removeBr ''pao'' = ''pao''"
  by code_simp+

lemma ex_lower_idem:
  "\<forall>s. ToLower (\<lambda>s. s) (ToLower (\<lambda>s. s) s) = ToLower (\<lambda>s. s) s"
proof
  fix s
  show "ToLower (\<lambda>s. s) (ToLower (\<lambda>s. s) s) = ToLower (\<lambda>s. s) s"
  proof (cases "isASCII s")
    case True
    then show ?thesis by (rule ToLower_ascii_idem)
  next
    case False
    then show ?thesis by (simp add: ToLower_def)
  qed
qed

lemma readRows_ReadError:
  "r \<in> set rows \<Longrightarrow> length r \<noteq> n \<Longrightarrow> ReadError \<in> set (readRows n rows)"
  by (induction rows) auto

lemma csvReader_fatal:
  assumes "r \<in> set rest" and "length r \<noteq> length first"
  shows "parseDict_loop lower m (csvReader (first # rest)) = Inl Fatal"
  using readRows_ReadError[OF assms]
  by (simp add: csvReader_def parseDict_loop_fatal del: parseDict_loop.simps)

lemma ex_short_reads:
  "csvReads ex_short_env = [Record ex_run, ReadError, Record ex_Ran]"
  by (simp add: ex_short_env_def csvReader_def ex_run_def ex_short_def ex_Ran_def)

lemma ex_short_skipped:
  "parseDict_loop (\<lambda>s. s) Map.empty [Record ex_run, Record ex_short, Record ex_Ran] =
     Inr [''run'' \<mapsto> entryOf ex_run, ''Ran'' \<mapsto> entryOf ex_Ran, ''ran'' \<mapsto> entryOf ex_Ran]"
proof -
  have short: "\<not> validRecord ex_short"
    by (simp add: validRecord_def ex_short_def)
  have "parseDict_loop (\<lambda>s. s) Map.empty (map Record [ex_run, ex_short, ex_Ran]) =
      Inr (foldl (insertEntry (\<lambda>s. s)) Map.empty (filter validRecord [ex_run, ex_short, ex_Ran]))"
    by (rule parseDict_loop_records)
  then show ?thesis
    by (simp add: ex_valid short insertEntry_def ex_words ex_lower)
qed

section \<open>The claims\<close>

subsection \<open>LookUp\<close>

text \<open>
  Claim C1. In every state of a running process and for every input string,
  \<open>LookUp\<close> trims the input once, replaces the trimmed word by what the lemma
  map gives for it when it is a key there (the mapped word is not trimmed
  again), looks the result up in the dictionary map, and returns a pointer to
  a copy of the entry when there is one and \<open>nil\<close> when there is none.
\<close>

theorem LookUp_trims_then_resolves:
  assumes "reachable e s"
  shows "LookUp e w s =
      (case dictMapSingleton s (baseWordOf (lemmaMapSingleton s) w) of
         None \<Rightarrow> Inr (None, s)
       | Some d \<Rightarrow> Inr (Some (length (heap s)), s\<lparr>heap := heap s @ [d]\<rparr>))
    \<and> pointee (LookUp e w s) = dictMapSingleton s (baseWordOf (lemmaMapSingleton s) w)"
proof -
  from assms have loaded: "loadDict e s = Inr s" by (rule reachable_loaded)
  then have "LookUp e w s =
      (case dictMapSingleton s (baseWordOf (lemmaMapSingleton s) w) of
         None \<Rightarrow> Inr (None, s)
       | Some d \<Rightarrow> Inr (Some (length (heap s)), s\<lparr>heap := heap s @ [d]\<rparr>))"
    by (simp add: LookUp_loaded baseWordOf_case)
  moreover have "pointee (LookUp e w s) =
      dictMapSingleton s (baseWordOf (lemmaMapSingleton s) w)"
    by (rule pointee_LookUp[OF loaded])
  ultimately show ?thesis by (rule conjI)
qed

theorem LookUp_trims_then_resolves_witness:
  "reachable ex_env ex_state \<and>
   LookUp ex_env ''  runs '' ex_state = Inr (Some 0, ex_state\<lparr>heap := [entryOf ex_run]\<rparr>) \<and>
   pointee (LookUp ex_env ''  runs '' ex_state) = Some (entryOf ex_run)"
  using LookUp_trims_then_resolves[OF ex_reachable, of "''  runs ''"] ex_reachable
  by (simp add: baseWordOf_case ex_trim ex_state_maps)

text \<open>
  Claim C2. For a trimmed word \<open>w\<close> that is a key of the dictionary map and
  of the lemma map, \<open>LookUp\<close> returns the entry that the dictionary map holds
  for the mapped base word (\<open>nil\<close> when it holds none): what the map holds
  under \<open>w\<close> itself plays no part, and whenever it differs from the base
  word's entry it is not what is returned. A word is looked up as it is when
  the lemma map has no mapping for it.
\<close>

theorem LookUp_lemma_first:
  assumes "reachable e s"
    and "TrimSpace w = w"
    and "w \<in> dom (dictMapSingleton s)"
    and "lemmaMapSingleton s w = Some b"
  shows "LookUp e w s =
      (case dictMapSingleton s b of
         None \<Rightarrow> Inr (None, s)
       | Some d \<Rightarrow> Inr (Some (length (heap s)), s\<lparr>heap := heap s @ [d]\<rparr>))
    \<and> pointee (LookUp e w s) = dictMapSingleton s b
    \<and> (dictMapSingleton s b \<noteq> dictMapSingleton s w \<longrightarrow>
         pointee (LookUp e w s) \<noteq> dictMapSingleton s w)
    \<and> (\<forall>w'. TrimSpace w' = w' \<and> lemmaMapSingleton s w' = None \<longrightarrow>
         pointee (LookUp e w' s) = dictMapSingleton s w')"
proof -
  from assms(1) have loaded: "loadDict e s = Inr s" by (rule reachable_loaded)
  then have "LookUp e w s =
      (case dictMapSingleton s b of
         None \<Rightarrow> Inr (None, s)
       | Some d \<Rightarrow> Inr (Some (length (heap s)), s\<lparr>heap := heap s @ [d]\<rparr>))"
    using assms(2,4) by (simp add: LookUp_loaded)
  moreover have "pointee (LookUp e w s) = dictMapSingleton s b"
    using assms(2,4) by (simp add: pointee_LookUp[OF loaded] baseWordOf_case)
  moreover have "\<forall>w'. TrimSpace w' = w' \<and> lemmaMapSingleton s w' = None \<longrightarrow>
         pointee (LookUp e w' s) = dictMapSingleton s w'"
    by (simp add: pointee_LookUp[OF loaded] baseWordOf_case)
  ultimately show ?thesis by simp
qed

theorem LookUp_lemma_first_witness:
  "reachable ex_env ex_state \<and> TrimSpace ''ran'' = ''ran'' \<and>
   ''ran'' \<in> dom (dictMapSingleton ex_state) \<and>
   lemmaMapSingleton ex_state ''ran'' = Some ''run'' \<and>
   dictMapSingleton ex_state ''ran'' = Some (entryOf ex_Ran) \<and>
   LookUp ex_env ''ran'' ex_state = Inr (Some 0, ex_state\<lparr>heap := [entryOf ex_run]\<rparr>) \<and>
   pointee (LookUp ex_env ''ran'' ex_state) = Some (entryOf ex_run) \<and>
   pointee (LookUp ex_env ''ran'' ex_state) \<noteq> Some (entryOf ex_Ran) \<and>
   TrimSpace ''run'' = ''run'' \<and> lemmaMapSingleton ex_state ''run'' = None \<and>
   pointee (LookUp ex_env ''run'' ex_state) = Some (entryOf ex_run)"
proof -
  have a: "TrimSpace ''ran'' = ''ran''" by (rule ex_trim)
  have b: "''ran'' \<in> dom (dictMapSingleton ex_state)" by (simp add: ex_state_maps domIff)
  have c: "lemmaMapSingleton ex_state ''ran'' = Some ''run''" by (rule ex_state_maps)
  from LookUp_lemma_first[OF ex_reachable a b c] ex_reachable a b
  show ?thesis by (simp add: ex_state_maps ex_entries_differ ex_trim)
qed

text \<open>
  Claim C9. In every state of a running process, when the word that results
  from trimming and lemma resolution is not a key of the dictionary map,
  \<open>LookUp\<close> returns \<open>nil\<close> (it does not end the process), and it leaves the
  state, so both maps, as they were.
\<close>

theorem LookUp_absent:
  assumes "reachable e s"
    and "baseWordOf (lemmaMapSingleton s) w \<notin> dom (dictMapSingleton s)"
  shows "LookUp e w s = Inr (None, s)"
proof -
  from assms(1) have "loadDict e s = Inr s" by (rule reachable_loaded)
  moreover from assms(2) have "dictMapSingleton s (baseWordOf (lemmaMapSingleton s) w) = None"
    by auto
  ultimately show ?thesis by (simp add: LookUp_loaded baseWordOf_case)
qed

theorem LookUp_absent_witness:
  "reachable ex_env ex_state \<and>
   baseWordOf (lemmaMapSingleton ex_state) ''zebra'' \<notin> dom (dictMapSingleton ex_state) \<and>
   LookUp ex_env ''zebra'' ex_state = Inr (None, ex_state)"
proof -
  have absent: "baseWordOf (lemmaMapSingleton ex_state) ''zebra''
      \<notin> dom (dictMapSingleton ex_state)"
    by (simp add: baseWordOf_case ex_trim ex_state_maps domIff)
  from LookUp_absent[OF ex_reachable absent] ex_reachable absent show ?thesis by simp
qed

subsection \<open>parseDict\<close>

text \<open>
  Claim C3. The claim has \<open>parseDict\<close> skip every record that has not
  exactly 13 fields and insert every valid one. The loop does test the number
  of fields (lines 84 to 86), but only after the test of the read error (lines
  81 to 83), and the reader, left in its default settings, returns an error
  for every row whose number of fields differs from the first row's. So a row
  of another length among rows of 13 fields is not skipped: the load ends the
  process, and no record contributes an entry. For the rows \<open>ex_run\<close> (13
  fields), \<open>ex_short\<close> (2 fields) and \<open>ex_Ran\<close> (13 fields) the second read
  fails and \<open>parseDict\<close>, and with it \<open>init\<close>, is fatal; had the loop received
  the short row as a record, it would have skipped it and returned the map
  of the two other rows, which is what the claim describes.
\<close>

theorem parseDict_wrong_field_count_fatal:
  "length ex_run = 13 \<and> TrimSpace (ex_run ! 0) \<noteq> [] \<and>
     \<not> (ex_run ! 0 = ''word'' \<and> ex_run ! 1 = ''phonetic'') \<and>
   length ex_Ran = 13 \<and> TrimSpace (ex_Ran ! 0) \<noteq> [] \<and>
     \<not> (ex_Ran ! 0 = ''word'' \<and> ex_Ran ! 1 = ''phonetic'') \<and>
   length ex_short \<noteq> 13 \<and>
   csvReads ex_short_env = csvReader [ex_run, ex_short, ex_Ran] \<and>
   csvReader [ex_run, ex_short, ex_Ran] = [Record ex_run, ReadError, Record ex_Ran] \<and>
   parseDict ex_short_env = Inl Fatal \<and>
   init ex_short_env = Inl Fatal \<and>
   LookUp ex_short_env ''run'' initial = Inl Fatal \<and>
   parseDict_loop (unicodeLower ex_short_env) Map.empty
       [Record ex_run, Record ex_short, Record ex_Ran] =
     Inr [''run'' \<mapsto> entryOf ex_run, ''Ran'' \<mapsto> entryOf ex_Ran, ''ran'' \<mapsto> entryOf ex_Ran]"
proof -
  have lower: "unicodeLower ex_short_env = (\<lambda>s. s)"
    and reads: "csvReads ex_short_env = csvReader [ex_run, ex_short, ex_Ran]"
    by (simp_all add: ex_short_env_def)
  have rows: "csvReader [ex_run, ex_short, ex_Ran] = [Record ex_run, ReadError, Record ex_Ran]"
    using ex_short_reads by (simp add: reads)
  have fatal: "parseDict ex_short_env = Inl Fatal"
    by (simp add: parseDict_def parseDict_loop_fatal reads rows del: parseDict_loop.simps)
  have load: "loadDict ex_short_env initial = Inl Fatal"
    by (simp add: loadDict_def initial_def fatal)
  have "length ex_run = 13" "length ex_Ran = 13" "length ex_short \<noteq> 13"
    "\<not> (ex_run ! 0 = ''word'' \<and> ex_run ! 1 = ''phonetic'')"
    "\<not> (ex_Ran ! 0 = ''word'' \<and> ex_Ran ! 1 = ''phonetic'')"
    by (simp_all add: ex_run_def ex_Ran_def ex_short_def)
  moreover have "TrimSpace (ex_run ! 0) \<noteq> []" "TrimSpace (ex_Ran ! 0) \<noteq> []"
    using ex_words(2) ex_words(4) by (simp_all add: wordOf_def)
  moreover have "init ex_short_env = Inl Fatal"
    by (simp add: init_def load)
  moreover have "LookUp ex_short_env ''run'' initial = Inl Fatal"
    by (simp add: LookUp_def load)
  ultimately show ?thesis
    using reads rows fatal ex_short_skipped by (simp add: lower)
qed

text \<open>
  What the loop does with the records it receives: when no read fails,
  \<open>parseDict\<close> returns the map obtained by inserting, in source order,
  exactly the accepted records, each under its trimmed word and under the
  lowercase form of that word. Right after the loop has processed an accepted
  record, both of its keys hold its entry. The keys of the result are the two
  keys of the accepted records, and every stored entry is the entry of an
  accepted record under one of its two keys.
\<close>

lemma parseDict_accepted_records:
  assumes "csvReads e = map Record recs"
  shows "parseDict e = Inr (dictOfRecords (unicodeLower e) (filter validRecord recs))
    \<and> dom (dictOfRecords (unicodeLower e) (filter validRecord recs)) =
        (\<Union>r\<in>set (filter validRecord recs). {wordOf r, ToLower (unicodeLower e) (wordOf r)})
    \<and> (\<forall>as r bs. recs = as @ r # bs \<and> validRecord r \<longrightarrow>
         (\<exists>m. parseDict_loop (unicodeLower e) Map.empty (map Record (as @ [r])) = Inr m \<and>
              m (wordOf r) = Some (entryOf r) \<and>
              m (ToLower (unicodeLower e) (wordOf r)) = Some (entryOf r)))
    \<and> (\<forall>k d. dictOfRecords (unicodeLower e) (filter validRecord recs) k = Some d \<longrightarrow>
         (\<exists>r\<in>set recs. validRecord r \<and> d = entryOf r \<and>
            (k = wordOf r \<or> k = ToLower (unicodeLower e) (wordOf r))))"
proof -
  let ?lower = "unicodeLower e"
  have "parseDict e = Inr (dictOfRecords ?lower (filter validRecord recs))"
    by (simp add: parseDict_def assms parseDict_loop_records dictOfRecords_def)
  moreover have "dom (dictOfRecords ?lower (filter validRecord recs)) =
        (\<Union>r\<in>set (filter validRecord recs). {wordOf r, ToLower ?lower (wordOf r)})"
    by (simp add: dictOfRecords_def dom_foldl_insertEntry)
  moreover have "\<forall>as r bs. recs = as @ r # bs \<and> validRecord r \<longrightarrow>
         (\<exists>m. parseDict_loop ?lower Map.empty (map Record (as @ [r])) = Inr m \<and>
              m (wordOf r) = Some (entryOf r) \<and>
              m (ToLower ?lower (wordOf r)) = Some (entryOf r))"
  proof (intro allI impI)
    fix as r bs
    assume "recs = as @ r # bs \<and> validRecord r"
    then have v: "validRecord r" by simp
    have "parseDict_loop ?lower Map.empty (map Record (as @ [r])) =
        Inr (foldl (insertEntry ?lower) Map.empty (filter validRecord as @ r # []))"
      using v by (simp only: parseDict_loop_records) simp
    moreover have "foldl (insertEntry ?lower) Map.empty (filter validRecord as @ r # [])
        (wordOf r) = Some (entryOf r)"
      by (rule foldl_insertEntry_last) simp_all
    moreover have "foldl (insertEntry ?lower) Map.empty (filter validRecord as @ r # [])
        (ToLower ?lower (wordOf r)) = Some (entryOf r)"
      by (rule foldl_insertEntry_last) simp_all
    ultimately show "\<exists>m. parseDict_loop ?lower Map.empty (map Record (as @ [r])) = Inr m \<and>
              m (wordOf r) = Some (entryOf r) \<and>
              m (ToLower ?lower (wordOf r)) = Some (entryOf r)"
      by blast
  qed
  moreover have "\<forall>k d. dictOfRecords ?lower (filter validRecord recs) k = Some d \<longrightarrow>
         (\<exists>r\<in>set recs. validRecord r \<and> d = entryOf r \<and>
            (k = wordOf r \<or> k = ToLower ?lower (wordOf r)))"
  proof (intro allI impI)
    fix k d
    assume "dictOfRecords ?lower (filter validRecord recs) k = Some d"
    then have "foldl (insertEntry ?lower) Map.empty (filter validRecord recs) k = Some d"
      by (simp add: dictOfRecords_def)
    from foldl_insertEntry_value[OF this]
    show "\<exists>r\<in>set recs. validRecord r \<and> d = entryOf r \<and>
            (k = wordOf r \<or> k = ToLower ?lower (wordOf r))"
      by auto
  qed
  ultimately show ?thesis by blast
qed


text \<open>
  Claim C5 (amended). Let \<open>r1\<close> come before \<open>r2\<close> in the source, both valid,
  with different words that are equal after lowercasing, and let no later
  valid record write the keys concerned. Then the shared lowercase key and
  the exact-case key of \<open>r2\<close> hold the entry of \<open>r2\<close>. The exact-case key of
  \<open>r1\<close> holds the entry of \<open>r1\<close> when the word of \<open>r1\<close> is not itself the
  lowercase form; when it is, that key is the shared lowercase key, which
  \<open>r2\<close> has overwritten.
\<close>

theorem case_variants_last_writer:
  assumes reads: "csvReads e = map Record (as @ r1 # bs @ r2 # cs)"
    and valid: "validRecord r1" "validRecord r2"
    and differ: "wordOf r1 \<noteq> wordOf r2"
    and fold: "ToLower (unicodeLower e) (wordOf r1) = ToLower (unicodeLower e) (wordOf r2)"
    and later2: "\<forall>r\<in>set cs. \<not> writesKey (unicodeLower e) (ToLower (unicodeLower e) (wordOf r2)) r
                  \<and> \<not> writesKey (unicodeLower e) (wordOf r2) r"
    and later1: "\<forall>r\<in>set (bs @ cs). \<not> writesKey (unicodeLower e) (wordOf r1) r"
  shows "\<exists>m. parseDict e = Inr m
    \<and> m (ToLower (unicodeLower e) (wordOf r2)) = Some (entryOf r2)
    \<and> m (wordOf r2) = Some (entryOf r2)
    \<and> m (wordOf r1) =
        Some (if wordOf r1 = ToLower (unicodeLower e) (wordOf r1) then entryOf r2 else entryOf r1)"
proof -
  let ?lower = "unicodeLower e"
  let ?l = "ToLower ?lower (wordOf r2)"
  let ?fa = "filter validRecord as" and ?fb = "filter validRecord bs"
    and ?fc = "filter validRecord cs"
  let ?m = "foldl (insertEntry ?lower) Map.empty (?fa @ r1 # ?fb @ r2 # ?fc)"
  have "filter validRecord (as @ r1 # bs @ r2 # cs) = ?fa @ r1 # ?fb @ r2 # ?fc"
    using valid by simp
  then have parse: "parseDict e = Inr ?m"
    by (simp only: parseDict_def reads parseDict_loop_records)
  have split2: "?fa @ r1 # ?fb @ r2 # ?fc = (?fa @ r1 # ?fb) @ r2 # ?fc" by simp
  have c_l: "\<forall>r\<in>set ?fc. wordOf r \<noteq> ?l \<and> ToLower ?lower (wordOf r) \<noteq> ?l"
    by (rule filter_not_writesKey) (use later2 in blast)
  have c_w2: "\<forall>r\<in>set ?fc. wordOf r \<noteq> wordOf r2 \<and> ToLower ?lower (wordOf r) \<noteq> wordOf r2"
    by (rule filter_not_writesKey) (use later2 in blast)
  have m_l: "?m ?l = Some (entryOf r2)"
    unfolding split2 by (rule foldl_insertEntry_last) (use c_l in simp_all)
  have m_w2: "?m (wordOf r2) = Some (entryOf r2)"
    unfolding split2 by (rule foldl_insertEntry_last) (use c_w2 in simp_all)
  have m_w1: "?m (wordOf r1) = Some (if wordOf r1 = ToLower ?lower (wordOf r1)
      then entryOf r2 else entryOf r1)"
  proof (cases "wordOf r1 = ToLower ?lower (wordOf r1)")
    case True
    with fold have "wordOf r1 = ?l" by simp
    with m_l True show ?thesis by simp
  next
    case False
    have "\<forall>r\<in>set (?fb @ ?fc). wordOf r \<noteq> wordOf r1 \<and> ToLower ?lower (wordOf r) \<noteq> wordOf r1"
      using filter_not_writesKey[OF later1] by simp
    moreover have "wordOf r2 \<noteq> wordOf r1 \<and> ToLower ?lower (wordOf r2) \<noteq> wordOf r1"
      using differ False fold by auto
    ultimately have "\<forall>r\<in>set (?fb @ r2 # ?fc). wordOf r \<noteq> wordOf r1
        \<and> ToLower ?lower (wordOf r) \<noteq> wordOf r1"
      by auto
    then have "?m (wordOf r1) = Some (entryOf r1)"
      by (intro foldl_insertEntry_last) simp_all
    with False show ?thesis by simp
  qed
  from parse m_l m_w2 m_w1 show ?thesis by blast
qed

theorem case_variants_last_writer_witness:
  "csvReads ex_cat_env = map Record ([] @ ex_cat # [] @ ex_Cat # []) \<and>
   validRecord ex_cat \<and> validRecord ex_Cat \<and> wordOf ex_cat \<noteq> wordOf ex_Cat \<and>
   ToLower (unicodeLower ex_cat_env) (wordOf ex_cat) =
     ToLower (unicodeLower ex_cat_env) (wordOf ex_Cat) \<and>
   (\<exists>m. parseDict ex_cat_env = Inr m \<and> m ''cat'' = Some (entryOf ex_Cat) \<and>
        m ''Cat'' = Some (entryOf ex_Cat))"
proof -
  have lower: "unicodeLower ex_cat_env = (\<lambda>s. s)" by (simp add: ex_cat_env_def)
  have reads: "csvReads ex_cat_env = map Record ([] @ ex_cat # [] @ ex_Cat # [])"
    by (simp add: ex_cat_env_def)
  have differ: "wordOf ex_cat \<noteq> wordOf ex_Cat" by (simp add: ex_words)
  have fold: "ToLower (unicodeLower ex_cat_env) (wordOf ex_cat) =
      ToLower (unicodeLower ex_cat_env) (wordOf ex_Cat)"
    by (simp add: lower ex_words ex_lower)
  from case_variants_last_writer[OF reads ex_valid(5) ex_valid(6) differ fold]
  have "\<exists>m. parseDict ex_cat_env = Inr m \<and> m ''cat'' = Some (entryOf ex_Cat) \<and>
        m ''Cat'' = Some (entryOf ex_Cat)"
    by (auto simp: lower ex_words ex_lower)
  with reads ex_valid(5) ex_valid(6) differ fold show ?thesis by blast
qed

text \<open>
  Claim C5 as stated fails: of the rows \<open>cat\<close> and \<open>Cat\<close>, in this order, the
  first one's exact-case key \<open>cat\<close> is the shared lowercase key, and after
  loading it holds the data of the second row.
\<close>

theorem case_variants_counterexample:
  "validRecord ex_cat \<and> validRecord ex_Cat \<and> ex_cat \<noteq> ex_Cat \<and>
   wordOf ex_cat \<noteq> wordOf ex_Cat \<and>
   ToLower (unicodeLower ex_cat_env) (wordOf ex_cat) =
     ToLower (unicodeLower ex_cat_env) (wordOf ex_Cat) \<and>
   csvReads ex_cat_env = [Record ex_cat, Record ex_Cat] \<and>
   parseDict ex_cat_env =
     Inr [''cat'' \<mapsto> entryOf ex_cat, ''Cat'' \<mapsto> entryOf ex_Cat, ''cat'' \<mapsto> entryOf ex_Cat] \<and>
   [''cat'' \<mapsto> entryOf ex_cat, ''Cat'' \<mapsto> entryOf ex_Cat, ''cat'' \<mapsto> entryOf ex_Cat]
     (wordOf ex_cat) \<noteq> Some (entryOf ex_cat)"
proof -
  have "ex_cat \<noteq> ex_Cat" by (simp add: ex_cat_def ex_Cat_def)
  moreover have "wordOf ex_cat \<noteq> wordOf ex_Cat" by (simp add: ex_words)
  moreover have "ToLower (unicodeLower ex_cat_env) (wordOf ex_cat) =
      ToLower (unicodeLower ex_cat_env) (wordOf ex_Cat)"
    by (simp add: ex_cat_env_def ex_words ex_lower)
  moreover have "csvReads ex_cat_env = [Record ex_cat, Record ex_Cat]"
    by (simp add: ex_cat_env_def)
  moreover have
    "[''cat'' \<mapsto> entryOf ex_cat, ''Cat'' \<mapsto> entryOf ex_Cat, ''cat'' \<mapsto> entryOf ex_Cat]
       (wordOf ex_cat) \<noteq> Some (entryOf ex_cat)"
    using ex_cat_entries_differ by (simp add: ex_words)
  ultimately show ?thesis
    using ex_valid(5) ex_valid(6) ex_cat_parse by blast
qed

text \<open>
  Claim C6. Every entry of the map that \<open>parseDict\<close> returns comes from a
  valid record of the source: its word is the trimmed first field, its
  definition and translation are fields 2 and 3 passed through \<open>removeBr\<close>,
  and the eleven other fields are stored as they are in the row. \<open>removeBr\<close>
  replaces every occurrence of backslash-n by a line feed: it distributes
  over an occurrence, leaves a string without occurrence as it is, and its
  result has no occurrence left.
\<close>

theorem parseDict_fields:
  assumes "parseDict e = Inr m" and "m k = Some d"
  shows "(\<exists>r. Record r \<in> set (csvReads e) \<and> validRecord r
        \<and> (k = TrimSpace (r ! 0) \<or> k = ToLower (unicodeLower e) (TrimSpace (r ! 0)))
        \<and> Word d = TrimSpace (r ! 0)
        \<and> Phonetic d = r ! 1
        \<and> Definition d = removeBr (r ! 2)
        \<and> Translation d = removeBr (r ! 3)
        \<and> Pos d = r ! 4 \<and> Collins d = r ! 5 \<and> Oxford d = r ! 6 \<and> Tag d = r ! 7
        \<and> Bnc d = r ! 8 \<and> Frq d = r ! 9 \<and> Exchange d = r ! 10 \<and> Detail d = r ! 11
        \<and> Audio d = r ! 12)
    \<and> (\<forall>a b. removeBr (a @ [CHR 0x5C, CHR ''n''] @ b) = removeBr a @ [CHR 0x0A] @ removeBr b)
    \<and> (\<forall>s. \<not> sublist [CHR 0x5C, CHR ''n''] s \<longrightarrow> removeBr s = s)
    \<and> (\<forall>s. \<not> sublist [CHR 0x5C, CHR ''n''] (removeBr s))"
proof -
  from parseDict_Inr_records[OF assms(1)] obtain recs
    where reads: "csvReads e = map Record recs"
      and m: "m = dictOfRecords (unicodeLower e) (filter validRecord recs)"
    by blast
  from assms(2) have "foldl (insertEntry (unicodeLower e)) Map.empty (filter validRecord recs) k
      = Some d"
    by (simp add: m dictOfRecords_def)
  from foldl_insertEntry_value[OF this] obtain r
    where r: "r \<in> set recs" "validRecord r" "d = entryOf r"
      "wordOf r = k \<or> ToLower (unicodeLower e) (wordOf r) = k"
    by auto
  from r(1) have "Record r \<in> set (csvReads e)" by (simp add: reads)
  with r(2-4) have "\<exists>r. Record r \<in> set (csvReads e) \<and> validRecord r
        \<and> (k = TrimSpace (r ! 0) \<or> k = ToLower (unicodeLower e) (TrimSpace (r ! 0)))
        \<and> Word d = TrimSpace (r ! 0)
        \<and> Phonetic d = r ! 1
        \<and> Definition d = removeBr (r ! 2)
        \<and> Translation d = removeBr (r ! 3)
        \<and> Pos d = r ! 4 \<and> Collins d = r ! 5 \<and> Oxford d = r ! 6 \<and> Tag d = r ! 7
        \<and> Bnc d = r ! 8 \<and> Frq d = r ! 9 \<and> Exchange d = r ! 10 \<and> Detail d = r ! 11
        \<and> Audio d = r ! 12"
    by (intro exI[of _ r]) (auto simp: entryOf_def wordOf_def)
  then show ?thesis
    using removeBr_append_escape removeBr_no_escape removeBr_escape_free by blast
qed

theorem parseDict_fields_witness:
  "parseDict ex_env =
     Inr [''run'' \<mapsto> entryOf ex_run, ''Ran'' \<mapsto> entryOf ex_Ran, ''ran'' \<mapsto> entryOf ex_Ran] \<and>
   [''run'' \<mapsto> entryOf ex_run, ''Ran'' \<mapsto> entryOf ex_Ran, ''ran'' \<mapsto> entryOf ex_Ran] ''run''
     = Some (entryOf ex_run) \<and>
   Record ex_run \<in> set (csvReads ex_env) \<and> validRecord ex_run \<and>
   Word (entryOf ex_run) = ''run'' \<and> Phonetic (entryOf ex_run) = ''rVn'' \<and>
   Definition (entryOf ex_run) = ''go'' @ [CHR 0x0A] @ ''fast'' \<and>
   Exchange (entryOf ex_run) = ''d:ran'' \<and>
   removeBr (''go'' @ [CHR 0x5C, CHR ''n''] @ ''fast'') = removeBr ''go'' @ [CHR 0x0A] @ removeBr ''fast''"
proof -
  have k: "[''run'' \<mapsto> entryOf ex_run, ''Ran'' \<mapsto> entryOf ex_Ran, ''ran'' \<mapsto> entryOf ex_Ran]
      ''run'' = Some (entryOf ex_run)"
    by simp
  from parseDict_fields[OF ex_parseDict k]
  have "removeBr (''go'' @ [CHR 0x5C, CHR ''n''] @ ''fast'') =
      removeBr ''go'' @ [CHR 0x0A] @ removeBr ''fast''"
    by blast
  moreover have "Record ex_run \<in> set (csvReads ex_env)" by (simp add: ex_env_def)
  moreover have "Word (entryOf ex_run) = ''run''" by (simp add: entryOf_def ex_words)
  moreover have "Phonetic (entryOf ex_run) = ''rVn''"
    "Exchange (entryOf ex_run) = ''d:ran''"
    by (simp_all add: entryOf_def ex_run_def)
  moreover have "Definition (entryOf ex_run) = ''go'' @ [CHR 0x0A] @ ''fast''"
    using ex_removeBr(1) by (simp add: entryOf_def ex_run_def)
  ultimately show ?thesis
    using ex_parseDict k ex_valid(2) by blast
qed

text \<open>
  Claim C10. The keys of the map that \<open>parseDict\<close> returns are closed under
  lowercasing. \<open>strings.ToLower\<close> is applied to the lowercase keys as well, so
  the statement rests on lowercasing twice being lowercasing once; this holds
  for ASCII strings (lemma \<open>ToLower_ascii_idem\<close>) and is a hypothesis on the
  Unicode path, which is a parameter here.
\<close>

theorem dict_keys_closed_under_lowercase:
  assumes idem: "\<forall>s. ToLower (unicodeLower e) (ToLower (unicodeLower e) s)
                     = ToLower (unicodeLower e) s"
    and "parseDict e = Inr m"
    and "k \<in> dom m"
  shows "ToLower (unicodeLower e) k \<in> dom m"
proof -
  let ?lower = "unicodeLower e"
  from parseDict_Inr_records[OF assms(2)] obtain recs
    where m: "m = dictOfRecords ?lower (filter validRecord recs)"
    by blast
  then have dom_m: "dom m = (\<Union>r\<in>set (filter validRecord recs).
      {wordOf r, ToLower ?lower (wordOf r)})"
    by (simp add: dictOfRecords_def dom_foldl_insertEntry)
  with assms(3) obtain r where r: "r \<in> set (filter validRecord recs)"
    and k: "k = wordOf r \<or> k = ToLower ?lower (wordOf r)"
    by auto
  from k idem have "ToLower ?lower k = ToLower ?lower (wordOf r)" by auto
  with r show ?thesis unfolding dom_m by blast
qed

theorem dict_keys_closed_under_lowercase_witness:
  "(\<forall>s. ToLower (unicodeLower ex_env) (ToLower (unicodeLower ex_env) s)
        = ToLower (unicodeLower ex_env) s) \<and>
   parseDict ex_env =
     Inr [''run'' \<mapsto> entryOf ex_run, ''Ran'' \<mapsto> entryOf ex_Ran, ''ran'' \<mapsto> entryOf ex_Ran] \<and>
   ''Ran'' \<in> dom [''run'' \<mapsto> entryOf ex_run, ''Ran'' \<mapsto> entryOf ex_Ran, ''ran'' \<mapsto> entryOf ex_Ran] \<and>
   ToLower (unicodeLower ex_env) ''Ran'' = ''ran'' \<and>
   ''ran'' \<in> dom [''run'' \<mapsto> entryOf ex_run, ''Ran'' \<mapsto> entryOf ex_Ran, ''ran'' \<mapsto> entryOf ex_Ran]"
proof -
  have lower: "unicodeLower ex_env = (\<lambda>s. s)" by (simp add: ex_env_def)
  have idem: "\<forall>s. ToLower (unicodeLower ex_env) (ToLower (unicodeLower ex_env) s)
        = ToLower (unicodeLower ex_env) s"
    unfolding lower by (rule ex_lower_idem)
  have k: "''Ran'' \<in> dom [''run'' \<mapsto> entryOf ex_run, ''Ran'' \<mapsto> entryOf ex_Ran,
      ''ran'' \<mapsto> entryOf ex_Ran]"
    by simp
  have l: "ToLower (unicodeLower ex_env) ''Ran'' = ''ran''"
    unfolding lower by (rule ex_lower)
  from dict_keys_closed_under_lowercase[OF idem ex_parseDict k] idem ex_parseDict k l
  show ?thesis by simp
qed

subsection \<open>parseLemma\<close>

text \<open>
  Claim C4. \<open>parseLemma\<close> works line by line: the map after a line is the map
  before it, overridden by the rules of that line; so the result is the map
  of all rules in which a later rule wins. The rules of a line
  (\<open>lemmaRules\<close>) are none when the trimmed line starts with \<open>;\<close>, when it does
  not split into exactly two parts on \<open>" -> "\<close>, or when the trimmed first
  \<open>/\<close>-token of the left part is empty; otherwise every trimmed, non-empty
  \<open>,\<close>-token of the right part maps to that canonical word. Every key and
  every value of the result is non-empty.
\<close>

theorem parseLemma_rules:
  "parseLemma e = map_of (rev (concat (map lemmaRules (scanLines e))))
   \<and> (\<forall>m l ls. parseLemma_loop m (l # ls) =
         parseLemma_loop (m ++ map_of (rev (lemmaRules l))) ls)
   \<and> (\<forall>k v. parseLemma e k = Some v \<longrightarrow> k \<noteq> [] \<and> v \<noteq> [])"
proof -
  have eq: "parseLemma e = map_of (rev (concat (map lemmaRules (scanLines e))))"
    by (simp add: parseLemma_def parseLemma_loop_map_of)
  have "\<forall>k v. parseLemma e k = Some v \<longrightarrow> k \<noteq> [] \<and> v \<noteq> []"
  proof (intro allI impI)
    fix k v
    assume "parseLemma e k = Some v"
    then have "map_of (rev (concat (map lemmaRules (scanLines e)))) k = Some v"
      by (simp add: eq)
    then have "(k, v) \<in> set (rev (concat (map lemmaRules (scanLines e))))"
      by (rule map_of_SomeD)
    then obtain l where "(k, v) \<in> set (lemmaRules l)" by auto
    then show "k \<noteq> [] \<and> v \<noteq> []" by (rule lemmaRules_nonempty)
  qed
  with eq parseLemma_loop_Cons show ?thesis by blast
qed

theorem parseLemma_rules_witness:
  "parseLemma ex_env = [''runs'' \<mapsto> ''run'', ''ran'' \<mapsto> ''run''] \<and>
   parseLemma ex_env ''ran'' = Some ''run'' \<and> ''ran'' \<noteq> [] \<and> ''run'' \<noteq> []"
proof -
  have lines: "scanLines ex_env = [''; rules'', ''run/12 -> runs, ran'', ''no arrow'']"
    by (simp add: ex_env_def)
  from parseLemma_rules[of ex_env]
  have "parseLemma ex_env = map_of (rev (concat (map lemmaRules (scanLines ex_env))))"
    by blast
  then have "parseLemma ex_env = [''runs'' \<mapsto> ''run'', ''ran'' \<mapsto> ''run'']"
    by (simp add: lines ex_rules)
  then show ?thesis by simp
qed

subsection \<open>loadDict\<close>

text \<open>
  Claim C7. For fixed assets, invoking \<open>loadDict\<close> any positive number of
  times in a row gives what one invocation gives; a state that one invocation
  has produced is not changed by a further one; and when both maps are
  non-empty an invocation changes nothing.
\<close>

theorem loadDict_idempotent:
  "loadDict_times e (Suc n) s = loadDict e s
   \<and> (\<forall>s1. loadDict e s = Inr s1 \<longrightarrow> loadDict e s1 = Inr s1)
   \<and> (dictMapSingleton s \<noteq> Map.empty \<and> lemmaMapSingleton s \<noteq> Map.empty \<longrightarrow>
        loadDict e s = Inr s)"
  using loadDict_times_Suc loadDict_idem loadDict_loaded by blast

theorem loadDict_idempotent_witness:
  "loadDict_times ex_env (Suc 2) initial = Inr ex_state \<and>
   loadDict ex_env initial = Inr ex_state \<and>
   loadDict ex_env ex_state = Inr ex_state \<and>
   dictMapSingleton ex_state \<noteq> Map.empty \<and> lemmaMapSingleton ex_state \<noteq> Map.empty"
proof -
  have i: "loadDict ex_env initial = Inr ex_state"
    using ex_init by (simp add: init_def)
  have ne: "dictMapSingleton ex_state \<noteq> Map.empty" "lemmaMapSingleton ex_state \<noteq> Map.empty"
    by (simp_all add: ex_state_def)
  from loadDict_idempotent[of ex_env 2 initial] i ne show ?thesis by simp
qed

subsection \<open>The returned pointer\<close>

text \<open>
  Claim C8. When \<open>LookUp\<close> has returned a pointer \<open>p\<close>, writing any value
  through \<open>p\<close> leaves both maps as they are, and a second \<open>LookUp\<close> of the
  same word returns another pointer, whose cell holds the entry that the
  first call returned, while the cell of \<open>p\<close> holds what was written.
\<close>

theorem LookUp_snapshot:
  assumes "LookUp e w s = Inr (Some p, s1)"
  shows "\<exists>q s3. LookUp e w (store p v s1) = Inr (Some q, s3)
    \<and> q \<noteq> p
    \<and> pointee (Inr (Some q, s3)) = pointee (Inr (Some p, s1))
    \<and> pointee (Inr (Some p, s3)) = Some v
    \<and> dictMapSingleton (store p v s1) = dictMapSingleton s1
    \<and> lemmaMapSingleton (store p v s1) = lemmaMapSingleton s1
    \<and> dictMapSingleton s3 = dictMapSingleton s1
    \<and> lemmaMapSingleton s3 = lemmaMapSingleton s1"
proof -
  from assms obtain s0 where load: "loadDict e s = Inr s0"
    by (auto simp: LookUp_def split: sum.splits)
  then have loaded: "loadDict e s0 = Inr s0" by (rule loadDict_idem)
  let ?b = "baseWordOf (lemmaMapSingleton s0) w"
  from assms load obtain d where d: "dictMapSingleton s0 ?b = Some d"
    and s1: "s1 = s0\<lparr>heap := heap s0 @ [d]\<rparr>" and p: "p = length (heap s0)"
    by (auto simp: LookUp_def Let_def baseWordOf_case split: option.splits)
  let ?s2 = "store p v s1"
  have s2: "?s2 = s0\<lparr>heap := heap s0 @ [v]\<rparr>"
    by (simp add: store_def s1 p)
  have loaded2: "loadDict e (s0\<lparr>heap := heap s0 @ [v]\<rparr>) = Inr (s0\<lparr>heap := heap s0 @ [v]\<rparr>)"
    by (rule loadDict_heap[OF loaded])
  have "LookUp e w (s0\<lparr>heap := heap s0 @ [v]\<rparr>) =
      Inr (Some (Suc (length (heap s0))), s0\<lparr>heap := heap s0 @ [v, d]\<rparr>)"
    using d by (simp add: LookUp_loaded[OF loaded2] baseWordOf_case)
  then have look2: "LookUp e w (store p v s1) =
      Inr (Some (Suc p), s0\<lparr>heap := heap s0 @ [v, d]\<rparr>)"
    unfolding s2 by (simp add: p)
  have maps: "dictMapSingleton (store p v s1) = dictMapSingleton s1"
    "lemmaMapSingleton (store p v s1) = lemmaMapSingleton s1"
    by (simp_all add: store_def)
  show ?thesis
    apply (rule exI[of _ "Suc p"])
    apply (rule exI[of _ "s0\<lparr>heap := heap s0 @ [v, d]\<rparr>"])
    apply (simp add: look2 maps)
    apply (simp add: s1 p nth_append)
    done
qed

theorem LookUp_snapshot_witness:
  "LookUp ex_env ''run'' ex_state = Inr (Some 0, ex_state\<lparr>heap := [entryOf ex_run]\<rparr>) \<and>
   LookUp ex_env ''run'' (store 0 (entryOf ex_Ran) (ex_state\<lparr>heap := [entryOf ex_run]\<rparr>)) =
     Inr (Some 1, ex_state\<lparr>heap := [entryOf ex_Ran, entryOf ex_run]\<rparr>)"
proof -
  have loaded: "loadDict ex_env ex_state = Inr ex_state"
    by (rule reachable_loaded[OF ex_reachable])
  have first: "LookUp ex_env ''run'' ex_state =
      Inr (Some 0, ex_state\<lparr>heap := [entryOf ex_run]\<rparr>)"
    by (simp add: LookUp_loaded[OF loaded] ex_trim ex_state_maps)
  from LookUp_snapshot[OF first, of "entryOf ex_Ran"]
  obtain q s3 where
    "LookUp ex_env ''run'' (store 0 (entryOf ex_Ran) (ex_state\<lparr>heap := [entryOf ex_run]\<rparr>)) =
       Inr (Some q, s3)"
    by blast
  moreover have ld: "loadDict ex_env (ex_state\<lparr>heap := [entryOf ex_Ran]\<rparr>) =
      Inr (ex_state\<lparr>heap := [entryOf ex_Ran]\<rparr>)"
    by (rule loadDict_heap[OF loaded])
  ultimately show ?thesis
    using first by (simp add: store_def LookUp_loaded[OF ld] ex_trim ex_state_maps)
qed

end
